theory Spec2Isabelle
  imports Main "HOL-Library.Sublist"
begin

section \<open>Text primitives of the document parser\<close>

text \<open>
  Source strings are modelled as \<^typ>\<open>string\<close>; a \<^typ>\<open>char\<close> stands for one code unit in the
  Latin-1 range. \<open>isSpace\<close> is the regular expression class \<open>\s\<close> (and the set removed by
  \<open>trim\<close>) restricted to that range; \<open>isLineTerminator\<close> is the complement of \<open>.\<close>.
\<close>

definition isSpace :: "char \<Rightarrow> bool" where
  "isSpace c = (c = CHR 0x09 \<or> c = CHR 0x0A \<or> c = CHR 0x0B \<or> c = CHR 0x0C \<or> c = CHR 0x0D
                \<or> c = CHR '' '' \<or> c = CHR 0xA0)"

definition isLineTerminator :: "char \<Rightarrow> bool" where
  "isLineTerminator c = (c = CHR 0x0A \<or> c = CHR 0x0D)"

definition trim :: "string \<Rightarrow> string" where
  "trim s = rev (dropWhile isSpace (rev (dropWhile isSpace s)))"

text \<open>\<open>substring s a b\<close> is \<open>s.substring(a, b)\<close>: both indices are clamped to the length and
  swapped when out of order.\<close>

definition substring :: "string \<Rightarrow> nat \<Rightarrow> nat \<Rightarrow> string" where
  "substring s a b =
     (let a' = min a (length s); b' = min b (length s); lo = min a' b'; hi = max a' b'
      in take (hi - lo) (drop lo s))"

text \<open>\<open>startsWith s p\<close> is \<open>s.startsWith(p)\<close>.\<close>

definition startsWith :: "string \<Rightarrow> string \<Rightarrow> bool" where
  "startsWith s p = (take (length p) s = p)"

text \<open>\<open>indexOfFrom c s i\<close> is \<open>s.indexOf(c, i)\<close> for a one-character needle; \<open>None\<close> is \<open>-1\<close>.\<close>

fun indexOfChar :: "char \<Rightarrow> string \<Rightarrow> nat option" where
  "indexOfChar c [] = None"
| "indexOfChar c (x # xs) = (if x = c then Some 0 else map_option Suc (indexOfChar c xs))"

definition indexOfFrom :: "char \<Rightarrow> string \<Rightarrow> nat \<Rightarrow> nat option" where
  "indexOfFrom c s i = map_option (\<lambda>k. i + k) (indexOfChar c (drop i s))"

section \<open>Block extractor\<close>

text \<open>
  The block header is searched with the regular expression \<open>name\s*:?\s*\{\<close>, the name being
  escaped so that it matches literally. The three classes \<open>\s\<close>, \<open>:\<close> and \<open>{\<close> are disjoint,
  so the greedy match never backtracks: \<open>headerTail\<close> consumes the tail of a header and returns
  the number of characters it used, the brace included.
\<close>

definition headerTail :: "string \<Rightarrow> nat option" where
  "headerTail s =
     (let s1 = dropWhile isSpace s;
          s2 = (case s1 of [] \<Rightarrow> s1 | c # r \<Rightarrow> if c = CHR '':'' then r else s1);
          s3 = dropWhile isSpace s2
      in case s3 of [] \<Rightarrow> None
         | c # r \<Rightarrow> if c = CHR ''{'' then Some (length s - length r) else None)"

definition headerAt :: "string \<Rightarrow> string \<Rightarrow> nat option" where
  "headerAt name s =
     (if startsWith s name then map_option (\<lambda>k. length name + k) (headerTail (drop (length name) s))
      else None)"

text \<open>\<open>findHeader name s\<close> is \<open>match.index\<close> of \<open>s.match(regex)\<close>: the leftmost position at which
  the header matches.\<close>

fun findHeader :: "string \<Rightarrow> string \<Rightarrow> nat option" where
  "findHeader name [] = (case headerAt name [] of Some _ \<Rightarrow> Some 0 | None \<Rightarrow> None)"
| "findHeader name (c # cs) =
     (case headerAt name (c # cs) of Some _ \<Rightarrow> Some 0
      | None \<Rightarrow> map_option Suc (findHeader name cs))"

text \<open>The depth-counting loop \<open>while (i < content.length && braceCount > 0)\<close>, run on the
  suffix that starts at index \<open>i\<close>; it returns the final \<open>(i, braceCount)\<close>.\<close>

fun scanBraces :: "string \<Rightarrow> nat \<Rightarrow> nat \<Rightarrow> nat \<times> nat" where
  "scanBraces [] i n = (i, n)"
| "scanBraces (c # cs) i n =
     (if 0 < n
      then scanBraces cs (Suc i) (if c = CHR ''{'' then Suc n else if c = CHR ''}'' then n - 1 else n)
      else (i, n))"

definition extractBlockContent :: "string \<Rightarrow> string \<Rightarrow> string option" where
  "extractBlockContent content blockStartName =
     (case findHeader blockStartName content of
        None \<Rightarrow> None
      | Some m \<Rightarrow>
          (case indexOfFrom (CHR ''{'') content m of
             None \<Rightarrow> None
           | Some openBraceIndex \<Rightarrow>
               (case scanBraces (drop (Suc openBraceIndex) content) (Suc openBraceIndex) 1 of
                  (i, braceCount) \<Rightarrow>
                    if braceCount = 0 then Some (substring content (Suc openBraceIndex) (i - 1))
                    else None)))"

text \<open>Vocabulary for stating what the extractor returns: the nesting depth of a text, a text
  that stays open (the counter never reaches zero inside it), and the leftmost header.\<close>

fun depth :: "string \<Rightarrow> int" where
  "depth [] = 0"
| "depth (c # cs) = (if c = CHR ''{'' then 1 else if c = CHR ''}'' then -1 else 0) + depth cs"

definition staysOpen :: "string \<Rightarrow> bool" where
  "staysOpen s = list_all (\<lambda>p. 0 \<le> depth p) (prefixes s)"

definition firstHeader :: "string \<Rightarrow> string \<Rightarrow> nat \<Rightarrow> bool" where
  "firstHeader name s m =
     (m \<le> length s \<and> headerAt name (drop m s) \<noteq> None \<and> (\<forall>k \<in> {..<m}. headerAt name (drop k s) = None))"

definition firstBrace :: "string \<Rightarrow> nat \<Rightarrow> nat \<Rightarrow> bool" where
  "firstBrace s m ob = (m \<le> ob \<and> ob < length s \<and> s ! ob = CHR ''{'' \<and> (\<forall>k \<in> {m..<ob}. s ! k \<noteq> CHR ''{''))"

section \<open>Removing repeated blocks\<close>

text \<open>
  One iteration of the loop of \<open>stripBlocks\<close>: \<open>None\<close> is a \<open>break\<close> (no header, no opening
  brace, or a block that never closes); otherwise the text with the block cut out.
\<close>

definition stripStep :: "string \<Rightarrow> string \<Rightarrow> string option" where
  "stripStep newContent blockStartName =
     (case findHeader blockStartName newContent of
        None \<Rightarrow> None
      | Some m \<Rightarrow>
          (case indexOfFrom (CHR ''{'') newContent m of
             None \<Rightarrow> None
           | Some openBraceIndex \<Rightarrow>
               (case scanBraces (drop (Suc openBraceIndex) newContent) (Suc openBraceIndex) 1 of
                  (i, braceCount) \<Rightarrow>
                    if braceCount = 0 then Some (substring newContent 0 m @ drop i newContent)
                    else None)))"

text \<open>The \<open>while (true)\<close> loop. A run that never leaves the loop has the value \<open>None\<close>.\<close>

partial_function (option) stripLoop :: "string \<Rightarrow> string \<Rightarrow> string option" where
  "stripLoop blockStartName newContent =
     (case stripStep newContent blockStartName of
        None \<Rightarrow> Some newContent
      | Some shorter \<Rightarrow> stripLoop blockStartName shorter)"

declare stripLoop.simps [code]

definition stripBlocks :: "string \<Rightarrow> string \<Rightarrow> string option" where
  "stripBlocks content blockStartName = stripLoop blockStartName content"

section \<open>Key-value block parser\<close>

text \<open>
  A parsed value is a boolean, a number or a string. \<open>Number(value)\<close> is a primitive of the
  language and is taken as the parameter \<open>num\<close>: \<open>None\<close> stands for \<open>NaN\<close>. The result object is
  an association list in insertion order (the reordering of integer-like keys by
  \<open>Object.keys\<close> is not modelled; only its length is used).
\<close>

datatype 'n kvalue = KBool bool | KNum 'n | KStr string

type_synonym 'n kvmap = "(string \<times> 'n kvalue) list"

text \<open>\<open>s.split('\n')\<close>.\<close>

fun splitLines :: "string \<Rightarrow> string list" where
  "splitLines [] = [[]]"
| "splitLines (c # cs) =
     (if c = CHR 0x0A then [] # splitLines cs
      else (case splitLines cs of [] \<Rightarrow> [[c]] | l # ls \<Rightarrow> (c # l) # ls))"

text \<open>\<open>result[key] = v\<close> on a plain object whose values are primitives: an existing key keeps
  its place, a new key is appended, and the key \<open>__proto__\<close> is the inherited accessor, whose
  setter ignores a primitive, so no own property appears.\<close>

fun assign :: "string \<Rightarrow> 'a \<Rightarrow> (string \<times> 'a) list \<Rightarrow> (string \<times> 'a) list" where
  "assign k v [] = [(k, v)]"
| "assign k v ((k', v') # r) = (if k' = k then (k, v) # r else (k', v') # assign k v r)"

definition setPrimitive :: "string \<Rightarrow> 'a \<Rightarrow> (string \<times> 'a) list \<Rightarrow> (string \<times> 'a) list" where
  "setPrimitive k v obj = (if k = ''__proto__'' then obj else assign k v obj)"

definition coerce :: "(string \<Rightarrow> 'n option) \<Rightarrow> string \<Rightarrow> 'n kvalue" where
  "coerce num v =
     (if v = ''true'' then KBool True
      else if v = ''false'' then KBool False
      else (case num v of
              Some n \<Rightarrow> if v \<noteq> [] then KNum n else KStr v
            | None \<Rightarrow> KStr v))"

definition parseKvLine :: "(string \<Rightarrow> 'n option) \<Rightarrow> 'n kvmap \<Rightarrow> string \<Rightarrow> 'n kvmap" where
  "parseKvLine num result line =
     (let trimmed = trim line in
      if trimmed = [] \<or> startsWith trimmed ''//'' \<or> startsWith trimmed ''#'' then result
      else (case indexOfChar (CHR '':'') trimmed of
              None \<Rightarrow> result
            | Some colonIndex \<Rightarrow>
                (let key = trim (substring trimmed 0 colonIndex);
                     v = trim (drop (Suc colonIndex) trimmed)
                 in setPrimitive key (coerce num v) result)))"

definition parseKvContent :: "(string \<Rightarrow> 'n option) \<Rightarrow> string \<Rightarrow> 'n kvmap option" where
  "parseKvContent num blockContent =
     (let result = foldl (parseKvLine num) [] (splitLines blockContent)
      in if 0 < length result then Some result else None)"

section \<open>Document parser\<close>

subsection \<open>Regular expressions used by the parser\<close>

text \<open>\<open>searchRe m s\<close> tries the anchored matcher \<open>m\<close> at every position of \<open>s\<close> from the left and
  returns the first capture, as \<open>s.match(re)\<close> does; \<open>searchIdx\<close> also returns the position.\<close>

fun searchRe :: "(string \<Rightarrow> 'a option) \<Rightarrow> string \<Rightarrow> 'a option" where
  "searchRe m [] = m []"
| "searchRe m (c # cs) = (case m (c # cs) of Some r \<Rightarrow> Some r | None \<Rightarrow> searchRe m cs)"

fun searchIdx :: "(string \<Rightarrow> 'a option) \<Rightarrow> string \<Rightarrow> (nat \<times> 'a) option" where
  "searchIdx m [] = map_option (Pair 0) (m [])"
| "searchIdx m (c # cs) =
     (case m (c # cs) of Some r \<Rightarrow> Some (0, r)
      | None \<Rightarrow> map_option (\<lambda>(i, r). (Suc i, r)) (searchIdx m cs))"

text \<open>The same search for a pattern that starts with \<open>^\<close> under the flag \<open>m\<close>: only the
  start of the text and the positions after a line terminator are tried.\<close>

fun searchLineStart :: "(string \<Rightarrow> 'a option) \<Rightarrow> bool \<Rightarrow> string \<Rightarrow> 'a option" where
  "searchLineStart m atStart [] = (if atStart then m [] else None)"
| "searchLineStart m atStart (c # cs) =
     (case (if atStart then m (c # cs) else None) of
        Some r \<Rightarrow> Some r
      | None \<Rightarrow> searchLineStart m (isLineTerminator c) cs)"

definition dropPrefix :: "string \<Rightarrow> string \<Rightarrow> string option" where
  "dropPrefix p s = (if startsWith s p then Some (drop (length p) s) else None)"

text \<open>\<open>\s*(.+)\<close>: the greedy \<open>\s*\<close> gives characters back when \<open>.+\<close> finds nothing after it.\<close>

fun wsDotPlus :: "string \<Rightarrow> string option" where
  "wsDotPlus [] = None"
| "wsDotPlus (c # cs) =
     (case (if isSpace c then wsDotPlus cs else None) of
        Some r \<Rightarrow> Some r
      | None \<Rightarrow> if isLineTerminator c then None
                else Some (takeWhile (\<lambda>x. \<not> isLineTerminator x) (c # cs)))"

text \<open>\<open>key\s*(.+)\<close> for the keys \<open>name:\<close> and \<open>url:\<close>.\<close>

definition lineAt :: "string \<Rightarrow> string \<Rightarrow> string option" where
  "lineAt key s = (case dropPrefix key s of None \<Rightarrow> None | Some r \<Rightarrow> wsDotPlus r)"

text \<open>\<open>meta\s*\{([\s\S]*?)\}\<close>.\<close>

definition metaAt :: "string \<Rightarrow> string option" where
  "metaAt s =
     (case dropPrefix ''meta'' s of
        None \<Rightarrow> None
      | Some r \<Rightarrow>
          (case dropWhile isSpace r of
             [] \<Rightarrow> None
           | c # r2 \<Rightarrow>
               if c = CHR ''{''
               then map_option (\<lambda>k. take k r2) (indexOfChar (CHR ''}'') r2)
               else None))"

text \<open>\<open>(get|post|put|delete|patch|options|head)\s*\{\<close>; the captured token is already in
  lower case, so \<open>toLowerCase\<close> leaves it as it is.\<close>

definition methodTokens :: "string list" where
  "methodTokens = [''get'', ''post'', ''put'', ''delete'', ''patch'', ''options'', ''head'']"

definition methodAt :: "string \<Rightarrow> string option" where
  "methodAt s =
     (case filter (\<lambda>tok. startsWith s tok \<and>
                     (case dropWhile isSpace (drop (length tok) s) of
                        [] \<Rightarrow> False | c # _ \<Rightarrow> c = CHR ''{'')) methodTokens of
        [] \<Rightarrow> None
      | tok # _ \<Rightarrow> Some tok)"

text \<open>\<open>example\s*\{\<close>, returning the length of the match.\<close>

definition exampleAt :: "string \<Rightarrow> nat option" where
  "exampleAt s =
     (case dropPrefix ''example'' s of
        None \<Rightarrow> None
      | Some r \<Rightarrow>
          (case dropWhile isSpace r of
             [] \<Rightarrow> None
           | c # r2 \<Rightarrow> if c = CHR ''{'' then Some (length s - length r2) else None))"

text \<open>\<open>code:\s*(\d+)\<close> and \<open>parseInt(digits, 10)\<close>. The status code is a natural number; the
  rounding of \<open>parseInt\<close> beyond \<open>2^53\<close> is not modelled.\<close>

definition isDigit :: "char \<Rightarrow> bool" where
  "isDigit c = (48 \<le> (of_char c :: nat) \<and> (of_char c :: nat) \<le> 57)"

definition codeAt :: "string \<Rightarrow> string option" where
  "codeAt s =
     (case dropPrefix ''code:'' s of
        None \<Rightarrow> None
      | Some r \<Rightarrow>
          (let ds = takeWhile isDigit (dropWhile isSpace r)
           in if ds = [] then None else Some ds))"

definition parseInt10 :: "string \<Rightarrow> nat" where
  "parseInt10 ds = foldl (\<lambda>a c. 10 * a + (of_char c - 48)) 0 ds"

text \<open>\<open>s.indexOf(pat)\<close>.\<close>

fun indexOfStr :: "string \<Rightarrow> string \<Rightarrow> nat option" where
  "indexOfStr pat [] = (if pat = [] then Some 0 else None)"
| "indexOfStr pat (c # cs) =
     (if startsWith (c # cs) pat then Some 0 else map_option Suc (indexOfStr pat cs))"

text \<open>The three patterns tried on a response body: \<open>content:\s*'''([\s\S]*?)'''\<close>,
  \<open>content:\s*"([\s\S]*?)"\<close> and \<open>content:\s*([\s\S]+)\<close>.\<close>

definition contentQuoted :: "string \<Rightarrow> string \<Rightarrow> string option" where
  "contentQuoted q s =
     (case dropPrefix ''content:'' s of
        None \<Rightarrow> None
      | Some r \<Rightarrow>
          (case dropPrefix q (dropWhile isSpace r) of
             None \<Rightarrow> None
           | Some r2 \<Rightarrow> map_option (\<lambda>k. take k r2) (indexOfStr q r2)))"

definition contentBare :: "string \<Rightarrow> string option" where
  "contentBare s =
     (case dropPrefix ''content:'' s of
        None \<Rightarrow> None
      | Some r \<Rightarrow>
          (case dropWhile isSpace r of
             [] \<Rightarrow> if r = [] then None else Some [last r]
           | c # r2 \<Rightarrow> Some (c # r2)))"

definition contentLiteral :: "string \<Rightarrow> string option" where
  "contentLiteral bodyBlock =
     (case searchRe (contentQuoted [CHR 0x27, CHR 0x27, CHR 0x27]) bodyBlock of
        Some lit \<Rightarrow> Some lit
      | None \<Rightarrow>
          (case searchRe (contentQuoted [CHR 0x22]) bodyBlock of
             Some lit \<Rightarrow> Some lit
           | None \<Rightarrow> searchRe contentBare bodyBlock))"

subsection \<open>Records\<close>

text \<open>
  The collaborators outside the repository are parameters: \<open>jsNumber\<close> is \<open>Number\<close> (\<open>None\<close> for
  \<open>NaN\<close>), \<open>json5\<close> is \<open>JSON5.parse\<close> (\<open>None\<close> when it throws) and \<open>basename\<close> is
  \<open>path.basename(filePath, '.bru')\<close>. An optional field is an \<open>option\<close>; for the document body
  \<open>None\<close> is the initial \<open>null\<close>.
\<close>

record ('n, 'v) env =
  jsNumber :: "string \<Rightarrow> 'n option"
  json5 :: "string \<Rightarrow> 'v option"
  basename :: "string \<Rightarrow> string"

record ('n, 'v) Response =
  statusCode :: nat
  res_body :: "'v option"
  res_headers :: "'n kvmap option"

record ('n, 'v) BruFile =
  bru_path :: string
  bru_name :: string
  bru_method :: string
  bru_url :: string
  bru_body :: "'v option"
  bru_headers :: "'n kvmap option"
  bru_query :: "'n kvmap option"
  bru_params :: "'n kvmap option"
  bru_responses :: "('n, 'v) Response list option"

datatype 'a nullable = Null | Value 'a

subsection \<open>Example responses\<close>

text \<open>\<open>present x\<close> is the test \<open>if (x)\<close> on a string or \<open>null\<close>: the empty string is falsy.\<close>

definition present :: "string option \<Rightarrow> string option" where
  "present x = (case x of None \<Rightarrow> None | Some s \<Rightarrow> if s = [] then None else Some s)"

definition parseStatus :: "string \<Rightarrow> nat option" where
  "parseStatus responseContent =
     (case present (extractBlockContent responseContent ''status'') of
        None \<Rightarrow> None
      | Some statusBlock \<Rightarrow> map_option parseInt10 (searchRe codeAt statusBlock))"

definition parseResponseBody :: "('n, 'v) env \<Rightarrow> string \<Rightarrow> 'v option" where
  "parseResponseBody e responseContent =
     (case present (extractBlockContent responseContent ''body'') of
        None \<Rightarrow> None
      | Some bodyBlock \<Rightarrow>
          (case contentLiteral bodyBlock of
             None \<Rightarrow> None
           | Some lit \<Rightarrow> json5 e (trim lit)))"

definition parseResponseHeaders :: "('n, 'v) env \<Rightarrow> string \<Rightarrow> 'n kvmap option" where
  "parseResponseHeaders e responseContent =
     (case present (extractBlockContent responseContent ''headers'') of
        None \<Rightarrow> None
      | Some headersBlock \<Rightarrow> parseKvContent (jsNumber e) headersBlock)"

text \<open>The body of the loop over the matches of \<open>example\s*\{\<close>: \<open>sub\<close> is the text from the
  match on; the state is the list \<open>responses\<close> and the set \<open>statusCodesSeen\<close>.\<close>

definition processExample ::
  "('n, 'v) env \<Rightarrow> string \<Rightarrow> ('n, 'v) Response list \<times> nat list
     \<Rightarrow> ('n, 'v) Response list \<times> nat list" where
  "processExample e sub st =
     (case st of (responses, statusCodesSeen) \<Rightarrow>
        (case present (extractBlockContent sub ''example'') of
           None \<Rightarrow> st
         | Some exampleContent \<Rightarrow>
             (case present (extractBlockContent exampleContent ''response'') of
                None \<Rightarrow> st
              | Some responseContent \<Rightarrow>
                  (case parseStatus responseContent of
                     None \<Rightarrow> st
                   | Some code \<Rightarrow>
                       if code \<noteq> 0 \<and> code \<notin> set statusCodesSeen
                       then (responses @
                               [\<lparr>statusCode = code,
                                 res_body = parseResponseBody e responseContent,
                                 res_headers = parseResponseHeaders e responseContent\<rparr>],
                             statusCodesSeen @ [code])
                       else st))))"

text \<open>The \<open>while ((exampleMatch = exampleRegex.exec(content)) !== null)\<close> loop, on the text
  from \<open>lastIndex\<close> on. A run that never leaves the loop has the value \<open>None\<close>.\<close>

partial_function (option) exampleLoop ::
  "('n, 'v) env \<Rightarrow> string \<Rightarrow> ('n, 'v) Response list \<times> nat list
     \<Rightarrow> (('n, 'v) Response list \<times> nat list) option" where
  "exampleLoop e rest st =
     (case searchIdx exampleAt rest of
        None \<Rightarrow> Some st
      | Some found \<Rightarrow>
          exampleLoop e
            (drop (fst found + (if snd found = 0 then 1 else snd found)) rest)
            (processExample e (drop (fst found) rest) st))"

declare exampleLoop.simps [code]

subsection \<open>The document\<close>

definition parseName :: "('n, 'v) env \<Rightarrow> string \<Rightarrow> string \<Rightarrow> string" where
  "parseName e filePath content =
     (case searchRe metaAt content of
        None \<Rightarrow> basename e filePath
      | Some metaBlock \<Rightarrow>
          (case searchRe (lineAt ''name:'') metaBlock of
             None \<Rightarrow> basename e filePath
           | Some n \<Rightarrow> trim n))"

definition parseMethod :: "string \<Rightarrow> string" where
  "parseMethod content =
     (case searchLineStart methodAt True content of None \<Rightarrow> ''unknown'' | Some tok \<Rightarrow> tok)"

definition parseUrl :: "string \<Rightarrow> string" where
  "parseUrl content =
     (case searchRe (lineAt ''url:'') content of None \<Rightarrow> [] | Some u \<Rightarrow> trim u)"

definition parseKvBlock :: "('n, 'v) env \<Rightarrow> string \<Rightarrow> string \<Rightarrow> 'n kvmap option" where
  "parseKvBlock e cleanContent blockName =
     (case present (extractBlockContent cleanContent blockName) of
        None \<Rightarrow> None
      | Some str \<Rightarrow> parseKvContent (jsNumber e) str)"

definition parseBody :: "('n, 'v) env \<Rightarrow> string \<Rightarrow> 'v option" where
  "parseBody e cleanContent =
     (case present (extractBlockContent cleanContent ''body:json'') of
        None \<Rightarrow> None
      | Some bodyContent \<Rightarrow> json5 e bodyContent)"

definition parseBruFile ::
  "('n, 'v) env \<Rightarrow> string \<Rightarrow> string \<Rightarrow> ('n, 'v) BruFile nullable option" where
  "parseBruFile e filePath content =
     (case exampleLoop e content ([], []) of
        None \<Rightarrow> None
      | Some st \<Rightarrow>
          (case stripBlocks content ''example'' of
             None \<Rightarrow> None
           | Some cleanContent \<Rightarrow>
               Some (Value
                 \<lparr>bru_path = filePath,
                  bru_name = parseName e filePath content,
                  bru_method = parseMethod content,
                  bru_url = parseUrl content,
                  bru_body = parseBody e cleanContent,
                  bru_headers = parseKvBlock e cleanContent ''headers'',
                  bru_query = parseKvBlock e cleanContent ''params:query'',
                  bru_params = parseKvBlock e cleanContent ''params:path'',
                  bru_responses = (if 0 < length (fst st) then Some (fst st) else None)\<rparr>)))"

subsection \<open>The key-value format as the specification words it\<close>

text \<open>
  A line is usable when, trimmed, it is not blank, does not start with a comment marker and
  contains a colon; its key is the trimmed text before the first colon and its value the
  trimmed text after it. \<open>entriesOf\<close> lists the key and value of every usable line in order.
\<close>

definition usableLine :: "string \<Rightarrow> bool" where
  "usableLine l =
     (let t = trim l
      in t \<noteq> [] \<and> \<not> startsWith t ''//'' \<and> \<not> startsWith t ''#'' \<and> CHR '':'' \<in> set t)"

definition lineKey :: "string \<Rightarrow> string" where
  "lineKey l = trim (takeWhile (\<lambda>c. c \<noteq> CHR '':'') (trim l))"

definition lineValue :: "string \<Rightarrow> string" where
  "lineValue l = trim (tl (dropWhile (\<lambda>c. c \<noteq> CHR '':'') (trim l)))"


subsection \<open>Vocabulary for the example responses\<close>

text \<open>A response is built by the parser when its three fields are read from one response
  block.\<close>

definition builtBy :: "('n, 'v) env \<Rightarrow> ('n, 'v) Response \<Rightarrow> bool" where
  "builtBy e r = (\<exists>rc. parseStatus rc = Some (statusCode r) \<and> res_body r = parseResponseBody e rc
                     \<and> res_headers r = parseResponseHeaders e rc)"

subsection \<open>Sample documents\<close>

text \<open>A concrete environment: no text is a number, the relaxed-JSON parser rejects the
  literal \<open>bad\<close> and returns any other literal trimmed, the base name is the path.\<close>

definition sampleEnv :: "(nat, string) env" where
  "sampleEnv = \<lparr>jsNumber = (\<lambda>s. None),
                json5 = (\<lambda>s. if trim s = ''bad'' then None else Some (trim s)),
                basename = (\<lambda>s. s)\<rparr>"


text \<open>A payload and a response body that the relaxed-JSON parser rejects.\<close>

definition badLiterals :: string where
  "badLiterals =
     ''body:json { bad } '' @
     ''example { response: { status: { code: 500 } body: { content: bad } } }''"

subsection \<open>Vocabulary for example blocks in a document\<close>

text \<open>
  \<open>exampleSpans content\<close> lists the example blocks the scanner can read: the positions at
  which \<open>example\s*\{\<close> matches and the braces balance, with the index just after the
  balancing brace. A document has nested headers when a \<open>headers\<close> block can be extracted
  from the text of such a span, and independent headers when a \<open>headers\<close> header matches at
  a position outside every span.
\<close>

definition blockEnd :: "string \<Rightarrow> nat option" where
  "blockEnd s =
     (case indexOfChar (CHR ''{'') s of
        None \<Rightarrow> None
      | Some ob \<Rightarrow>
          (case scanBraces (drop (Suc ob) s) (Suc ob) 1 of
             (i, braceCount) \<Rightarrow> if braceCount = 0 then Some i else None))"

definition exampleSpans :: "string \<Rightarrow> (nat \<times> nat) list" where
  "exampleSpans content =
     concat (map (\<lambda>m. case exampleAt (drop m content) of
                         None \<Rightarrow> []
                       | Some _ \<Rightarrow> (case blockEnd (drop m content) of
                                      None \<Rightarrow> []
                                    | Some i \<Rightarrow> [(m, m + i)]))
                 [0..<length content])"

definition nestedHeaders :: "string \<Rightarrow> bool" where
  "nestedHeaders content =
     list_ex (\<lambda>sp. extractBlockContent (take (snd sp - fst sp) (drop (fst sp) content)) ''headers''
                     \<noteq> None)
       (exampleSpans content)"

definition headerPositions :: "string \<Rightarrow> string \<Rightarrow> nat list" where
  "headerPositions name content =
     filter (\<lambda>k. headerAt name (drop k content) \<noteq> None) [0..<Suc (length content)]"

definition independentHeaders :: "string \<Rightarrow> bool" where
  "independentHeaders content =
     list_ex (\<lambda>k. list_all (\<lambda>sp. \<not> (fst sp \<le> k \<and> k < snd sp)) (exampleSpans content))
       (headerPositions ''headers'' content)"

text \<open>An example block that follows an example header whose braces never balance.\<close>

definition strayExample :: string where
  "strayExample = ''example { example { response: { headers: { a: b } } }''"

text \<open>A request followed by one example block with nested headers.\<close>

definition oneExample :: string where
  "oneExample =
     ''get {'' @ [CHR 0x0A] @ ''  url: /x'' @ [CHR 0x0A] @ ''}'' @ [CHR 0x0A] @
     ''example { response: { headers: { a: b } } }'' @ [CHR 0x0A]"

section \<open>Schema generator\<close>

subsection \<open>Naming\<close>










subsection \<open>JSON values\<close>

text \<open>
  A draft schema is the result of \<open>JSON.parse\<close>: a tree without sharing. An object is the list
  of its own properties in insertion order, with distinct keys. Numbers are never inspected;
  an integer stands for the number.
\<close>

datatype json = JNull | JBool bool | JNum int | JStr string | JArr "json list"
  | JObj "(string \<times> json) list"




text \<open>\<open>s.replace(pat, rep)\<close> with a string pattern replaces the first occurrence, wherever it
  is; \<open>refName\<close> is \<open>ref.replace('#/definitions/', '')\<close>.\<close>

definition replaceFirst :: "string \<Rightarrow> string \<Rightarrow> string \<Rightarrow> string" where
  "replaceFirst pat rep s =
     (case indexOfStr pat s of
        None \<Rightarrow> s
      | Some k \<Rightarrow> take k s @ rep @ drop (k + length pat) s)"

definition refName :: "string \<Rightarrow> string" where
  "refName r = replaceFirst ''#/definitions/'' [] r"



subsection \<open>Outcomes and the definitions mapping\<close>








subsection \<open>Restructuring, shared steps\<close>




subsection \<open>Restructuring in \<open>src/generator.ts\<close>\<close>





subsection \<open>Restructuring in the later snapshot\<close>




subsection \<open>Reference markers\<close>

text \<open>
  \<open>replaceRefsWithMarkers\<close> turns an object whose \<open>$ref\<close> is a non-empty string with an entry
  in the rename map into a \<open>const\<close> marker and does not descend into it; an object whose
  \<open>$ref\<close> is such a string without an entry is left alone; everything else is walked. The
  rename map holds non-empty strings under own keys (a name inherited from
  \<open>Object.prototype\<close> is outside the model).
\<close>

fun removeKey :: "string \<Rightarrow> (string \<times> 'a) list \<Rightarrow> (string \<times> 'a) list" where
  "removeKey k [] = []"
| "removeKey k ((k', v) # r) = (if k' = k then r else (k', v) # removeKey k r)"

fun replaceRefsWithMarkers :: "(string \<times> string) list \<Rightarrow> json \<Rightarrow> json"
  and markItems :: "(string \<times> string) list \<Rightarrow> json list \<Rightarrow> json list"
  and markMembers :: "(string \<times> string) list \<Rightarrow> (string \<times> json) list \<Rightarrow> (string \<times> json) list"
where
  "replaceRefsWithMarkers m JNull = JNull"
| "replaceRefsWithMarkers m (JBool b) = JBool b"
| "replaceRefsWithMarkers m (JNum n) = JNum n"
| "replaceRefsWithMarkers m (JStr s) = JStr s"
| "replaceRefsWithMarkers m (JArr xs) = JArr (markItems m xs)"
| "replaceRefsWithMarkers m (JObj kvs) =
     (case map_of kvs ''$ref'' of
        Some (JStr r) \<Rightarrow>
          if r \<noteq> []
          then (case map_of m (refName r) of
                  Some n \<Rightarrow> JObj (assign ''const'' (JStr (''__REF__'' @ n)) (removeKey ''$ref'' kvs))
                | None \<Rightarrow> JObj kvs)
          else JObj (markMembers m kvs)
      | _ \<Rightarrow> JObj (markMembers m kvs))"
| "markItems m [] = []"
| "markItems m (x # xs) = replaceRefsWithMarkers m x # markItems m xs"
| "markMembers m [] = []"
| "markMembers m ((k, v) # r) = (k, replaceRefsWithMarkers m v) # markMembers m r"

subsection \<open>One component\<close>










subsection \<open>One output unit\<close>




subsection \<open>The sample payload with a list of posts\<close>









subsection \<open>References and well-formed drafts\<close>

text \<open>
  \<open>refsOf j\<close> lists every reference in \<open>j\<close>: the non-empty string values under the key \<open>$ref\<close>
  of any object at any depth, which is what \<open>replaceRefsWithMarkers\<close> and the item branch take
  for a reference. A reference resolves in a definitions mapping when its name, read as
  the generator reads it, is a key of the mapping.
\<close>

fun refsOf :: "json \<Rightarrow> string list"
  and refsOfItems :: "json list \<Rightarrow> string list"
  and refsOfMembers :: "(string \<times> json) list \<Rightarrow> string list"
where
  "refsOf JNull = []"
| "refsOf (JBool b) = []"
| "refsOf (JNum n) = []"
| "refsOf (JStr s) = []"
| "refsOf (JArr xs) = refsOfItems xs"
| "refsOf (JObj kvs) = refsOfMembers kvs"
| "refsOfItems [] = []"
| "refsOfItems (x # xs) = refsOf x @ refsOfItems xs"
| "refsOfMembers [] = []"
| "refsOfMembers ((k, v) # r) =
     (case v of
        JStr s \<Rightarrow> if k = ''$ref'' \<and> s \<noteq> [] then [s] else []
      | _ \<Rightarrow> refsOf v) @ refsOfMembers r"



text \<open>\<open>itemsOk j\<close>: every \<open>items\<close> member at any depth is an object, as the item schema of an
  array node is.\<close>

fun isObj :: "json \<Rightarrow> bool" where
  "isObj (JObj kvs) = True"
| "isObj _ = False"

fun itemsOk :: "json \<Rightarrow> bool"
  and itemsOkItems :: "json list \<Rightarrow> bool"
  and itemsOkMembers :: "(string \<times> json) list \<Rightarrow> bool"
where
  "itemsOk JNull = True"
| "itemsOk (JBool b) = True"
| "itemsOk (JNum n) = True"
| "itemsOk (JStr s) = True"
| "itemsOk (JArr xs) = itemsOkItems xs"
| "itemsOk (JObj kvs) = itemsOkMembers kvs"
| "itemsOkItems [] = True"
| "itemsOkItems (x # xs) = (itemsOk x \<and> itemsOkItems xs)"
| "itemsOkMembers [] = True"
| "itemsOkMembers ((k, v) # r) = ((k = ''items'' \<longrightarrow> isObj v) \<and> itemsOk v \<and> itemsOkMembers r)"













section \<open>Properties of the block extractor\<close>

lemma depth_append: "depth (a @ b) = depth a + depth b"
  by (induction a) auto

lemma findHeader_first: "findHeader name s = Some m \<longleftrightarrow> firstHeader name s m"
proof (induction s arbitrary: m)
  case Nil
  then show ?case by (auto simp: firstHeader_def split: option.splits)
next
  case (Cons c cs)
  show ?case
  proof (cases "headerAt name (c # cs)")
    case (Some a)
    then show ?thesis
      by (cases m) (force simp: firstHeader_def Ball_def)+
  next
    case None
    show ?thesis
    proof (cases m)
      case 0
      then show ?thesis using None by (auto simp: firstHeader_def)
    next
      case (Suc k)
      have "(\<forall>j\<in>{..<Suc k}. headerAt name (drop j (c # cs)) = None) \<longleftrightarrow>
            (\<forall>j\<in>{..<k}. headerAt name (drop j cs) = None)"
        using None by (simp add: Ball_def All_less_Suc2)
      then show ?thesis using None Suc Cons.IH[of k]
        by (auto simp: firstHeader_def)
    qed
  qed
qed

lemma findHeader_None: "findHeader name s = None \<longleftrightarrow> (\<forall>k < Suc (length s). headerAt name (drop k s) = None)"
proof (induction s)
  case Nil
  then show ?case by (auto split: option.splits)
next
  case (Cons c cs)
  have "(\<forall>k < Suc (length (c # cs)). headerAt name (drop k (c # cs)) = None) \<longleftrightarrow>
        (headerAt name (c # cs) = None \<and> (\<forall>k < Suc (length cs). headerAt name (drop k cs) = None))"
    by (subst All_less_Suc2) simp
  then show ?case using Cons by (auto split: option.splits)
qed

lemma indexOfChar_first:
  "indexOfChar c s = Some k \<longleftrightarrow> (k < length s \<and> s ! k = c \<and> (\<forall>j<k. s ! j \<noteq> c))"
proof (induction s arbitrary: k)
  case Nil
  then show ?case by simp
next
  case (Cons x xs)
  show ?case
  proof (cases "x = c")
    case True
    then show ?thesis by (cases k) auto
  next
    case False
    show ?thesis
    proof (cases k)
      case 0
      then show ?thesis using False by auto
    next
      case (Suc j)
      then show ?thesis using False Cons.IH[of j]
        by (auto simp: less_Suc_eq_0_disj)
    qed
  qed
qed

lemma staysOpen_iff: "staysOpen s \<longleftrightarrow> (\<forall>p. prefix p s \<longrightarrow> 0 \<le> depth p)"
  by (auto simp: staysOpen_def list_all_iff)

lemma scanBraces_zero: "scanBraces t i 0 = (i, 0)"
  by (cases t) auto

lemma scan_close:
  "0 < n \<Longrightarrow> int n + depth s = 1 \<Longrightarrow> (\<forall>p. prefix p s \<longrightarrow> 0 < int n + depth p)
   \<Longrightarrow> scanBraces (s @ CHR ''}'' # rest) i n = (i + length s + 1, 0)"
proof (induction s arbitrary: i n)
  case Nil
  then have "n = 1" by simp
  then show ?case by (simp add: scanBraces_zero)
next
  case (Cons c s)
  let ?n' = "if c = CHR ''{'' then Suc n else if c = CHR ''}'' then n - 1 else n"
  have "prefix [c] (c # s)" by simp
  with Cons.prems(3) have "0 < int n + depth [c]" by blast
  then have pos: "0 < ?n'" by (auto split: if_splits)
  have eq: "int ?n' = int n + depth [c]" using Cons.prems(1) by auto
  have d: "int ?n' + depth s = 1" using Cons.prems(2) eq by (auto split: if_splits)
  have pre: "\<forall>p. prefix p s \<longrightarrow> 0 < int ?n' + depth p"
  proof (intro allI impI)
    fix p assume "prefix p s"
    then have "prefix (c # p) (c # s)" by simp
    then have "0 < int n + depth (c # p)" using Cons.prems(3) by blast
    then show "0 < int ?n' + depth p" using eq by (auto split: if_splits)
  qed
  show ?case using Cons.IH[OF pos d pre, of "Suc i"] Cons.prems(1) by simp
qed

lemma scan_open:
  "0 < n \<Longrightarrow> (\<forall>p. prefix p t \<longrightarrow> 0 < int n + depth p)
   \<Longrightarrow> 0 < snd (scanBraces t i n)"
proof (induction t arbitrary: i n)
  case Nil
  then show ?case by simp
next
  case (Cons c t)
  let ?n' = "if c = CHR ''{'' then Suc n else if c = CHR ''}'' then n - 1 else n"
  have "prefix [c] (c # t)" by simp
  with Cons.prems(2) have "0 < int n + depth [c]" by blast
  then have pos: "0 < ?n'" by (auto split: if_splits)
  have eq: "int ?n' = int n + depth [c]" using Cons.prems(1) by auto
  have pre: "\<forall>p. prefix p t \<longrightarrow> 0 < int ?n' + depth p"
  proof (intro allI impI)
    fix p assume "prefix p t"
    then have "prefix (c # p) (c # t)" by simp
    then have "0 < int n + depth (c # p)" using Cons.prems(2) by blast
    then show "0 < int ?n' + depth p" using eq by (auto split: if_splits)
  qed
  show ?case using Cons.IH[OF pos pre, of "Suc i"] Cons.prems(1) by simp
qed

lemma scan_dichotomy:
  "0 < n \<Longrightarrow>
   (\<exists>s rest. t = s @ CHR ''}'' # rest \<and> int n + depth s = 1 \<and> (\<forall>p. prefix p s \<longrightarrow> 0 < int n + depth p))
   \<or> (\<forall>p. prefix p t \<longrightarrow> 0 < int n + depth p)"
proof (induction t arbitrary: n)
  case Nil
  then show ?case by simp
next
  case (Cons c t)
  show ?case
  proof (cases "c = CHR ''}'' \<and> n = 1")
    case True
    then have "c # t = [] @ CHR ''}'' # t \<and> int n + depth [] = 1 \<and> (\<forall>p. prefix p [] \<longrightarrow> 0 < int n + depth p)"
      by simp
    then show ?thesis by blast
  next
    case False
    let ?n' = "if c = CHR ''{'' then Suc n else if c = CHR ''}'' then n - 1 else n"
    have pos: "0 < ?n'" using False Cons.prems by auto
    have eq: "int ?n' = int n + depth [c]" using Cons.prems by auto
    from Cons.IH[OF pos] show ?thesis
    proof
      assume "\<exists>s rest. t = s @ CHR ''}'' # rest \<and> int ?n' + depth s = 1 \<and> (\<forall>p. prefix p s \<longrightarrow> 0 < int ?n' + depth p)"
      then obtain s rest where t: "t = s @ CHR ''}'' # rest" and d: "int ?n' + depth s = 1"
        and pr: "\<forall>p. prefix p s \<longrightarrow> 0 < int ?n' + depth p" by blast
      have 1: "c # t = (c # s) @ CHR ''}'' # rest" using t by simp
      have 2: "int n + depth (c # s) = 1" using d eq by (auto split: if_splits)
      have 3: "\<forall>p. prefix p (c # s) \<longrightarrow> 0 < int n + depth p"
      proof (intro allI impI)
        fix p assume p: "prefix p (c # s)"
        show "0 < int n + depth p"
        proof (cases p)
          case Nil then show ?thesis using Cons.prems by simp
        next
          case (Cons a q)
          then have "a = c" "prefix q s" using p by auto
          then show ?thesis using pr eq Cons by (auto split: if_splits)
        qed
      qed
      from 1 2 3 show ?thesis by blast
    next
      assume pr: "\<forall>p. prefix p t \<longrightarrow> 0 < int ?n' + depth p"
      have "\<forall>p. prefix p (c # t) \<longrightarrow> 0 < int n + depth p"
      proof (intro allI impI)
        fix p assume p: "prefix p (c # t)"
        show "0 < int n + depth p"
        proof (cases p)
          case Nil then show ?thesis using Cons.prems by simp
        next
          case (Cons a q)
          then have "a = c" "prefix q t" using p by auto
          then show ?thesis using pr eq Cons by (auto split: if_splits)
        qed
      qed
      then show ?thesis by blast
    qed
  qed
qed

lemma scan_exclusive:
  assumes "t = s @ CHR ''}'' # rest" "int n + depth s = 1"
  shows "\<not> (\<forall>p. prefix p t \<longrightarrow> 0 < int n + depth p)"
proof
  assume a: "\<forall>p. prefix p t \<longrightarrow> 0 < int n + depth p"
  have "prefix (s @ [CHR ''}'']) t" using assms(1) by (simp add: prefix_def)
  then have "0 < int n + depth (s @ [CHR ''}''])" using a by blast
  then show False using assms(2) by (simp add: depth_append)
qed

lemma scan_unique:
  assumes "s @ CHR ''}'' # rest = s' @ CHR ''}'' # rest'"
    and "int n + depth s = 1" "int n + depth s' = 1"
    and "\<forall>p. prefix p s \<longrightarrow> 0 < int n + depth p" "\<forall>p. prefix p s' \<longrightarrow> 0 < int n + depth p"
  shows "s = s'"
proof -
  have key: "\<And>a ra b rb. a @ CHR ''}'' # ra = b @ CHR ''}'' # rb \<Longrightarrow> int n + depth a = 1 \<Longrightarrow>
     (\<forall>p. prefix p b \<longrightarrow> 0 < int n + depth p) \<Longrightarrow> \<not> length a < length b"
  proof
    fix a ra b rb
    assume e: "a @ CHR ''}'' # ra = b @ CHR ''}'' # rb" and d: "int n + depth a = 1"
      and pr: "\<forall>p. prefix p b \<longrightarrow> 0 < int n + depth p" and l: "length a < length b"
    have "take (Suc (length a)) (a @ CHR ''}'' # ra) = a @ [CHR ''}'']" by simp
    moreover have "take (Suc (length a)) (b @ CHR ''}'' # rb) = take (Suc (length a)) b" using l by simp
    ultimately have "a @ [CHR ''}''] = take (Suc (length a)) b" using e by simp
    then have "prefix (a @ [CHR ''}'']) b" by (metis take_is_prefix)
    then have "0 < int n + depth (a @ [CHR ''}''])" using pr by blast
    then show False using d by (simp add: depth_append)
  qed
  have "length s = length s'"
    using key[OF assms(1) assms(2) assms(5)] key[OF assms(1)[symmetric] assms(3) assms(4)] by simp
  then show ?thesis using assms(1) by simp
qed

lemma headerTail_brace: 
  assumes a: "headerTail t = Some k" shows "CHR ''{'' \<in> set t"
proof -
  define s1 where "s1 = dropWhile isSpace t"
  define s2 where "s2 = (case s1 of [] \<Rightarrow> s1 | c # r \<Rightarrow> if c = CHR '':'' then r else s1)"
  define s3 where "s3 = dropWhile isSpace s2"
  have e: "headerTail t = (case s3 of [] \<Rightarrow> None
         | c # r \<Rightarrow> if c = CHR ''{'' then Some (length t - length r) else None)"
    unfolding headerTail_def Let_def s1_def s2_def s3_def ..
  have "CHR ''{'' \<in> set s3" using a unfolding e by (cases s3) (auto split: if_splits)
  then have "CHR ''{'' \<in> set s2" unfolding s3_def by (rule set_dropWhileD)
  then have "CHR ''{'' \<in> set s1" unfolding s2_def by (cases s1) (auto split: if_splits)
  then show ?thesis unfolding s1_def by (rule set_dropWhileD)
qed

lemma headerAt_brace: "headerAt name t \<noteq> None \<Longrightarrow> CHR ''{'' \<in> set t"
  unfolding headerAt_def by (auto split: if_splits dest!: headerTail_brace in_set_dropD)

lemma indexOfChar_None: "indexOfChar c s = None \<longleftrightarrow> c \<notin> set s"
  by (induction s) auto

lemma indexOfFrom_first:
  "indexOfFrom c s m = Some ob \<longleftrightarrow>
     (m \<le> ob \<and> ob < length s \<and> s ! ob = c \<and> (\<forall>k \<in> {m..<ob}. s ! k \<noteq> c))"
proof
  assume "indexOfFrom c s m = Some ob"
  then obtain k where k: "indexOfChar c (drop m s) = Some k" "ob = m + k"
    by (auto simp: indexOfFrom_def)
  then have "k < length (drop m s)" "drop m s ! k = c" "\<forall>j<k. drop m s ! j \<noteq> c"
    by (auto simp: indexOfChar_first)
  then have f: "k < length s - m" "s ! (m + k) = c" "\<forall>j<k. s ! (m + j) \<noteq> c"
    by auto
  have "\<forall>i \<in> {m..<ob}. s ! i \<noteq> c"
  proof
    fix i assume "i \<in> {m..<ob}"
    then have "i - m < k" "i = m + (i - m)" using k(2) by auto
    then show "s ! i \<noteq> c" using f(3) by metis
  qed
  then show "m \<le> ob \<and> ob < length s \<and> s ! ob = c \<and> (\<forall>k \<in> {m..<ob}. s ! k \<noteq> c)"
    using k(2) f by auto
next
  assume a: "m \<le> ob \<and> ob < length s \<and> s ! ob = c \<and> (\<forall>k \<in> {m..<ob}. s ! k \<noteq> c)"
  then have "ob - m < length (drop m s)" "drop m s ! (ob - m) = c" by auto
  moreover have "\<forall>j<ob - m. drop m s ! j \<noteq> c" using a by auto
  ultimately have "indexOfChar c (drop m s) = Some (ob - m)" by (simp add: indexOfChar_first)
  then show "indexOfFrom c s m = Some ob" using a by (simp add: indexOfFrom_def)
qed

lemma firstHeader_brace: "firstHeader name s m \<Longrightarrow> \<exists>ob. indexOfFrom (CHR ''{'') s m = Some ob"
proof -
  assume "firstHeader name s m"
  then have "headerAt name (drop m s) \<noteq> None" by (simp add: firstHeader_def)
  then have "CHR ''{'' \<in> set (drop m s)" by (rule headerAt_brace)
  then have "indexOfChar (CHR ''{'') (drop m s) \<noteq> None" by (simp add: indexOfChar_None)
  then show ?thesis by (auto simp: indexOfFrom_def)
qed

lemma firstBrace_iff: "indexOfFrom (CHR ''{'') s m = Some ob \<longleftrightarrow> firstBrace s m ob"
  by (simp add: indexOfFrom_first firstBrace_def)

lemma extract_Some_intro:
  assumes fh: "findHeader name content = Some m"
    and fb: "indexOfFrom (CHR ''{'') content m = Some ob"
    and sp: "drop (Suc ob) content = s @ CHR ''}'' # rest"
    and d: "depth s = 0" and so: "staysOpen s"
  shows "extractBlockContent content name = Some s"
proof -
  have pr: "\<forall>p. prefix p s \<longrightarrow> 0 < int 1 + depth p" using so by (auto simp: staysOpen_iff)
  have sc: "scanBraces (drop (Suc ob) content) (Suc ob) 1 = (Suc ob + length s + 1, 0)"
    unfolding sp using scan_close[of 1 s rest "Suc ob"] d pr by simp
  have len: "Suc ob + length s + 1 \<le> length content"
  proof -
    have "length (drop (Suc ob) content) = length s + 1 + length rest" unfolding sp by simp
    then show ?thesis by simp
  qed
  have "take (length s) (drop (Suc ob) content) = s" unfolding sp by simp
  then have "substring content (Suc ob) (Suc ob + length s + 1 - 1) = s"
    using len by (simp add: substring_def Let_def min_def max_def)
  then show ?thesis unfolding extractBlockContent_def using fh fb sc by simp
qed

lemma extract_None_intro:
  assumes fh: "findHeader name content = Some m"
    and fb: "indexOfFrom (CHR ''{'') content m = Some ob"
    and so: "staysOpen (drop (Suc ob) content)"
  shows "extractBlockContent content name = None"
proof -
  have pr: "\<forall>p. prefix p (drop (Suc ob) content) \<longrightarrow> 0 < int 1 + depth p"
    using so by (auto simp: staysOpen_iff)
  have "0 < snd (scanBraces (drop (Suc ob) content) (Suc ob) 1)"
    using scan_open[of 1 "drop (Suc ob) content" "Suc ob"] pr by simp
  then show ?thesis unfolding extractBlockContent_def using fh fb
    by (auto split: prod.splits)
qed

lemma extract_cases:
  "(findHeader name content = None \<and> extractBlockContent content name = None)
   \<or> (\<exists>m ob. findHeader name content = Some m \<and> indexOfFrom (CHR ''{'') content m = Some ob \<and>
        ((\<exists>s rest. drop (Suc ob) content = s @ CHR ''}'' # rest \<and> depth s = 0 \<and> staysOpen s
              \<and> extractBlockContent content name = Some s)
         \<or> (staysOpen (drop (Suc ob) content) \<and> extractBlockContent content name = None)))"
proof (cases "findHeader name content")
  case None
  then show ?thesis by (simp add: extractBlockContent_def)
next
  case (Some m)
  then obtain ob where ob: "indexOfFrom (CHR ''{'') content m = Some ob"
    using firstHeader_brace findHeader_first by blast
  have "(\<exists>s rest. drop (Suc ob) content = s @ CHR ''}'' # rest \<and> int 1 + depth s = 1 \<and>
               (\<forall>p. prefix p s \<longrightarrow> 0 < int 1 + depth p))
        \<or> (\<forall>p. prefix p (drop (Suc ob) content) \<longrightarrow> 0 < int 1 + depth p)"
    by (rule scan_dichotomy) simp
  then show ?thesis
  proof
    assume "\<exists>s rest. drop (Suc ob) content = s @ CHR ''}'' # rest \<and> int 1 + depth s = 1 \<and>
               (\<forall>p. prefix p s \<longrightarrow> 0 < int 1 + depth p)"
    then obtain s rest where sp: "drop (Suc ob) content = s @ CHR ''}'' # rest" and d: "depth s = 0"
      and pr: "\<forall>p. prefix p s \<longrightarrow> 0 < int 1 + depth p" by auto
    have so: "staysOpen s" using pr by (auto simp: staysOpen_iff)
    show ?thesis using Some ob sp d so extract_Some_intro[OF Some ob sp d so] by blast
  next
    assume "\<forall>p. prefix p (drop (Suc ob) content) \<longrightarrow> 0 < int 1 + depth p"
    then have so: "staysOpen (drop (Suc ob) content)" by (auto simp: staysOpen_iff)
    show ?thesis using Some ob so extract_None_intro[OF Some ob so] by blast
  qed
qed

text \<open>
  Claim C5. For every text and block name, \<open>extractBlockContent\<close> returns \<open>Some s\<close> exactly when
  the leftmost header matches at some \<open>m\<close>, the first opening brace from \<open>m\<close> on is at \<open>ob\<close>, and
  the text after that brace is \<open>s\<close> followed by a closing brace, where \<open>s\<close> has depth zero and the
  counter never reaches zero inside \<open>s\<close>: \<open>s\<close> is the text strictly between the opening brace
  and its balancing closing brace, whatever braces are nested in it. It returns \<open>None\<close>
  exactly when no header matches anywhere or the text after the opening brace never
  balances.
\<close>

theorem extractBlockContent_balanced:
  "(extractBlockContent content name = Some s \<longleftrightarrow>
      (\<exists>m ob rest. firstHeader name content m \<and> firstBrace content m ob \<and>
          drop (Suc ob) content = s @ CHR ''}'' # rest \<and> depth s = 0 \<and> staysOpen s))
   \<and> (extractBlockContent content name = None \<longleftrightarrow>
      ((\<forall>k \<in> {..length content}. headerAt name (drop k content) = None)
       \<or> (\<exists>m ob. firstHeader name content m \<and> firstBrace content m ob \<and>
              staysOpen (drop (Suc ob) content))))"
proof (intro conjI iffI)
  assume a: "extractBlockContent content name = Some s"
  from extract_cases[of name content] a
  obtain m ob s' rest where fh: "findHeader name content = Some m"
    and fb: "indexOfFrom (CHR ''{'') content m = Some ob"
    and r: "drop (Suc ob) content = s' @ CHR ''}'' # rest" "depth s' = 0" "staysOpen s'"
       "extractBlockContent content name = Some s'"
    by auto
  then have "s' = s" using a by simp
  then show "\<exists>m ob rest. firstHeader name content m \<and> firstBrace content m ob \<and>
          drop (Suc ob) content = s @ CHR ''}'' # rest \<and> depth s = 0 \<and> staysOpen s"
    using fh fb r by (auto simp: findHeader_first firstBrace_iff)
next
  assume "\<exists>m ob rest. firstHeader name content m \<and> firstBrace content m ob \<and>
          drop (Suc ob) content = s @ CHR ''}'' # rest \<and> depth s = 0 \<and> staysOpen s"
  then show "extractBlockContent content name = Some s"
    by (auto simp: findHeader_first[symmetric] firstBrace_iff[symmetric] intro: extract_Some_intro)
next
  assume a: "extractBlockContent content name = None"
  from extract_cases[of name content] a
  have "findHeader name content = None \<or> (\<exists>m ob. findHeader name content = Some m \<and> indexOfFrom (CHR ''{'') content m = Some ob \<and> staysOpen (drop (Suc ob) content))"
    by auto
  then show "(\<forall>k \<in> {..length content}. headerAt name (drop k content) = None)
       \<or> (\<exists>m ob. firstHeader name content m \<and> firstBrace content m ob \<and>
              staysOpen (drop (Suc ob) content))"
    by (auto simp: findHeader_None findHeader_first firstBrace_iff less_Suc_eq_le)
next
  assume "(\<forall>k \<in> {..length content}. headerAt name (drop k content) = None)
       \<or> (\<exists>m ob. firstHeader name content m \<and> firstBrace content m ob \<and>
              staysOpen (drop (Suc ob) content))"
  then show "extractBlockContent content name = None"
  proof
    assume "\<forall>k \<in> {..length content}. headerAt name (drop k content) = None"
    then have "findHeader name content = None" by (auto simp: findHeader_None less_Suc_eq_le)
    then show ?thesis by (simp add: extractBlockContent_def)
  next
    assume "\<exists>m ob. firstHeader name content m \<and> firstBrace content m ob \<and>
              staysOpen (drop (Suc ob) content)"
    then show ?thesis
      by (auto simp: findHeader_first[symmetric] firstBrace_iff[symmetric] intro: extract_None_intro)
  qed
qed

theorem extractBlockContent_balanced_witness:
  "extractBlockContent ''h {a{b}c} {'' ''h'' = Some ''a{b}c''
   \<and> (\<exists>m ob rest. firstHeader ''h'' ''h {a{b}c} {'' m \<and> firstBrace ''h {a{b}c} {'' m ob \<and>
          drop (Suc ob) ''h {a{b}c} {'' = ''a{b}c'' @ CHR ''}'' # rest \<and> depth ''a{b}c'' = 0 \<and>
          staysOpen ''a{b}c'')
   \<and> extractBlockContent ''h {a'' ''h'' = None
   \<and> ((\<forall>k \<in> {..length ''h {a''}. headerAt ''h'' (drop k ''h {a'') = None)
       \<or> (\<exists>m ob. firstHeader ''h'' ''h {a'' m \<and> firstBrace ''h {a'' m ob \<and>
              staysOpen (drop (Suc ob) ''h {a'')))"
proof -
  have a: "extractBlockContent ''h {a{b}c} {'' ''h'' = Some ''a{b}c''" by code_simp
  have b: "extractBlockContent ''h {a'' ''h'' = None" by code_simp
  show ?thesis
    using a b extractBlockContent_balanced[of "''h {a{b}c} {''" "''h''" "''a{b}c''"]
      extractBlockContent_balanced[of "''h {a''" "''h''" "''x''"]
    by blast
qed

section \<open>Termination of the block remover\<close>

lemma scanBraces_bounds: "i \<le> fst (scanBraces t i n) \<and> fst (scanBraces t i n) \<le> i + length t"
proof (induction t arbitrary: i n)
  case Nil
  then show ?case by simp
next
  case (Cons c t)
  show ?case
  proof (cases "0 < n")
    case True
    let ?n' = "if c = CHR ''{'' then Suc n else if c = CHR ''}'' then n - 1 else n"
    have "scanBraces (c # t) i n = scanBraces t (Suc i) ?n'" using True by simp
    then show ?thesis using Cons.IH[of "Suc i" ?n'] by simp
  next
    case False
    then show ?thesis by simp
  qed
qed

lemma scanBraces_closed_step:
  "0 < n \<Longrightarrow> scanBraces t i n = (j, 0) \<Longrightarrow> Suc i \<le> j"
proof -
  assume n: "0 < n" and s: "scanBraces t i n = (j, 0)"
  show ?thesis
  proof (cases t)
    case Nil
    then show ?thesis using n s by simp
  next
    case (Cons c cs)
    let ?n' = "if c = CHR ''{'' then Suc n else if c = CHR ''}'' then n - 1 else n"
    have "scanBraces cs (Suc i) ?n' = (j, 0)" using n s Cons by simp
    then show ?thesis using scanBraces_bounds[of "Suc i" cs ?n'] by simp
  qed
qed

lemma stripStep_removes:
  assumes "stripStep content name = Some shorter"
  shows "length shorter + 2 \<le> length content"
proof -
  from assms obtain m ob i where fh: "findHeader name content = Some m"
    and fb: "indexOfFrom (CHR ''{'') content m = Some ob"
    and sc: "scanBraces (drop (Suc ob) content) (Suc ob) 1 = (i, 0)"
    and sh: "shorter = substring content 0 m @ drop i content"
    by (auto simp: stripStep_def split: option.splits prod.splits if_splits)
  from fb obtain k where "indexOfChar (CHR ''{'') (drop m content) = Some k" "ob = m + k"
    by (auto simp: indexOfFrom_def)
  then have ob: "m \<le> ob" "ob < length content"
    using indexOfChar_first[of "CHR ''{''" "drop m content" k] by auto
  have i1: "Suc (Suc ob) \<le> i" using scanBraces_closed_step[OF _ sc] by simp
  have i2: "i \<le> length content"
    using scanBraces_bounds[of "Suc ob" "drop (Suc ob) content" 1] sc ob by auto
  have "length shorter = m + (length content - i)"
    using sh ob by (simp add: substring_def Let_def min_def max_def)
  then show ?thesis using ob i1 i2 by simp
qed

lemma stripLoop_total: "\<exists>r. stripLoop name content = Some r \<and> length r \<le> length content"
proof (induction content rule: measure_induct_rule[where f = length])
  case (less content)
  show ?case
  proof (cases "stripStep content name")
    case None
    then show ?thesis by (subst stripLoop.simps) simp
  next
    case (Some shorter)
    then have "length shorter < length content" using stripStep_removes by fastforce
    from less[OF this] obtain r where "stripLoop name shorter = Some r" "length r \<le> length shorter"
      by blast
    then show ?thesis using Some \<open>length shorter < length content\<close>
      by (subst stripLoop.simps) simp
  qed
qed

text \<open>
  Claim C10. \<open>stripBlocks\<close> returns on every text and block name, with a text no longer than
  the input. An iteration that finds a balanced block yields a text shorter by at least the
  two braces of that block (the removed span runs from the start of the header to the
  balancing brace), and an iteration that breaks (no header, no opening brace, no balance)
  ends the loop with the working text unchanged.
\<close>

theorem stripBlocks_terminates:
  "(\<exists>r. stripBlocks content name = Some r \<and> length r \<le> length content)
   \<and> (\<forall>shorter. stripStep content name = Some shorter \<longrightarrow> length shorter + 2 \<le> length content)
   \<and> (stripStep content name = None \<longrightarrow> stripBlocks content name = Some content)"
proof (intro conjI allI impI)
  show "\<exists>r. stripBlocks content name = Some r \<and> length r \<le> length content"
    unfolding stripBlocks_def by (rule stripLoop_total)
next
  fix shorter assume "stripStep content name = Some shorter"
  then show "length shorter + 2 \<le> length content" by (rule stripStep_removes)
next
  assume "stripStep content name = None"
  then show "stripBlocks content name = Some content"
    unfolding stripBlocks_def by (subst stripLoop.simps) simp
qed

theorem stripBlocks_terminates_witness:
  "stripStep ''a example { x { y } } b example: {z} c example {'' ''example'' = Some ''a  b example: {z} c example {''
   \<and> stripStep ''a  b  c example {'' ''example'' = None
   \<and> stripBlocks ''a  b  c example {'' ''example'' = Some ''a  b  c example {''
   \<and> length ''a  b example: {z} c example {'' + 2 \<le> length ''a example { x { y } } b example: {z} c example {''"
proof -
  have a: "stripStep ''a example { x { y } } b example: {z} c example {'' ''example'' = Some ''a  b example: {z} c example {''"
    by code_simp
  have b: "stripStep ''a  b  c example {'' ''example'' = None" by code_simp
  show ?thesis
    using a b stripBlocks_terminates[of "''a example { x { y } } b example: {z} c example {''" "''example''"]
      stripBlocks_terminates[of "''a  b  c example {''" "''example''"]
    by blast
qed

section \<open>Properties of the key-value block parser\<close>

lemma indexOfChar_split:
  "indexOfChar c s = Some k \<Longrightarrow> take k s = takeWhile (\<lambda>x. x \<noteq> c) s \<and> drop (Suc k) s = tl (dropWhile (\<lambda>x. x \<noteq> c) s)"
  by (induction s arbitrary: k) (auto split: if_splits)

lemma parseKvLine_usable:
  assumes "usableLine l"
  shows "parseKvLine num r l = setPrimitive (lineKey l) (coerce num (lineValue l)) r"
proof -
  let ?t = "trim l"
  from assms have t: "?t \<noteq> []" "\<not> startsWith ?t ''//''" "\<not> startsWith ?t ''#''" "CHR '':'' \<in> set ?t"
    by (simp_all add: usableLine_def Let_def)
  then obtain ci where ci: "indexOfChar (CHR '':'') ?t = Some ci"
    using indexOfChar_None[of "CHR '':''" ?t] by auto
  then have lt: "ci < length ?t" by (simp add: indexOfChar_first)
  have sub: "substring ?t 0 ci = take ci ?t" using lt by (simp add: substring_def Let_def min_def max_def)
  show ?thesis
    unfolding parseKvLine_def Let_def lineKey_def lineValue_def
    using t ci sub indexOfChar_split[OF ci] by simp
qed

lemma parseKvLine_unusable:
  assumes "\<not> usableLine l"
  shows "parseKvLine num r l = r"
proof -
  let ?t = "trim l"
  from assms have "?t = [] \<or> startsWith ?t ''//'' \<or> startsWith ?t ''#'' \<or> indexOfChar (CHR '':'') ?t = None"
    by (auto simp: usableLine_def Let_def indexOfChar_None)
  then show ?thesis unfolding parseKvLine_def Let_def by auto
qed

lemma map_of_assign: "map_of (assign k v r) k' = (if k' = k then Some v else map_of r k')"
  by (induction r) auto


lemma map_of_setPrimitive:
  "map_of (setPrimitive k v r) k' = (if k' = k \<and> k \<noteq> ''__proto__'' then Some v else map_of r k')"
  by (simp add: setPrimitive_def map_of_assign)


lemma foldl_proto:
  "map_of (foldl (parseKvLine num) acc ls) ''__proto__'' = map_of acc ''__proto__''"
proof (induction ls arbitrary: acc)
  case Nil
  then show ?case by simp
next
  case (Cons l ls)
  show ?case
  proof (cases "usableLine l")
    case True
    then show ?thesis using Cons.IH[of "parseKvLine num acc l"]
      by (auto simp: parseKvLine_usable map_of_setPrimitive)
  next
    case False
    then show ?thesis using Cons.IH[of acc] by (simp add: parseKvLine_unusable)
  qed
qed




section \<open>Properties of the document parser\<close>

lemma searchIdx_sound:
  "searchIdx m s = Some (i, r) \<Longrightarrow> i \<le> length s \<and> m (drop i s) = Some r"
proof (induction s arbitrary: i)
  case Nil
  then show ?case by auto
next
  case (Cons c cs)
  then show ?case by (cases i) (auto split: option.splits)
qed

lemma dropPrefix_append: "dropPrefix p s = Some r \<Longrightarrow> s = p @ r"
proof -
  assume "dropPrefix p s = Some r"
  then have "take (length p) s = p" "r = drop (length p) s"
    by (auto simp: dropPrefix_def startsWith_def split: if_splits)
  then show ?thesis by (metis append_take_drop_id)
qed

lemma exampleAt_length: "exampleAt s = Some l \<Longrightarrow> 0 < l \<and> l \<le> length s"
proof -
  assume a: "exampleAt s = Some l"
  then obtain r where r: "dropPrefix ''example'' s = Some r"
    by (auto simp: exampleAt_def split: option.splits)
  then have rl: "length s = 7 + length r" using dropPrefix_append[OF r] by simp
  from a r obtain c r2 where d: "dropWhile isSpace r = c # r2" "l = length s - length r2"
    by (auto simp: exampleAt_def split: list.splits if_splits)
  have "length (dropWhile isSpace r) \<le> length r" by (rule length_dropWhile_le)
  then have "Suc (length r2) \<le> length r" using d by simp
  then show ?thesis using d rl by simp
qed

text \<open>What one example contributes.\<close>

lemma processExample_cases:
  "processExample e sub (rs, map statusCode rs) = (rs, map statusCode rs)
   \<or> (\<exists>rc code. parseStatus rc = Some code \<and> code \<noteq> 0 \<and> code \<notin> set (map statusCode rs) \<and>
        processExample e sub (rs, map statusCode rs) =
          (rs @ [\<lparr>statusCode = code, res_body = parseResponseBody e rc,
                  res_headers = parseResponseHeaders e rc\<rparr>],
           map statusCode rs @ [code]))"
proof (cases "present (extractBlockContent sub ''example'')")
  case None
  then show ?thesis by (simp add: processExample_def)
next
  case ex: (Some exampleContent)
  show ?thesis
  proof (cases "present (extractBlockContent exampleContent ''response'')")
    case None
    then show ?thesis using ex by (simp add: processExample_def)
  next
    case rc: (Some responseContent)
    show ?thesis
    proof (cases "parseStatus responseContent")
      case None
      then show ?thesis using ex rc by (simp add: processExample_def)
    next
      case (Some code)
      show ?thesis
      proof (cases "code \<noteq> 0 \<and> code \<notin> set (map statusCode rs)")
        case True
        have "processExample e sub (rs, map statusCode rs) =
          (rs @ [\<lparr>statusCode = code, res_body = parseResponseBody e responseContent,
                  res_headers = parseResponseHeaders e responseContent\<rparr>],
           map statusCode rs @ [code])"
          using ex rc Some True by (simp add: processExample_def)
        then show ?thesis using Some True by blast
      next
        case False
        then have "processExample e sub (rs, map statusCode rs) = (rs, map statusCode rs)"
          using ex rc Some by (simp add: processExample_def)
        then show ?thesis by blast
      qed
    qed
  qed
qed

lemma processExample_step:
  "processExample e sub (rs, map statusCode rs) = (rs, map statusCode rs)
   \<or> (\<exists>r. builtBy e r \<and> statusCode r \<noteq> 0 \<and> statusCode r \<notin> set (map statusCode rs) \<and>
        processExample e sub (rs, map statusCode rs) = (rs @ [r], map statusCode (rs @ [r])))"
proof -
  from processExample_cases[of e sub rs] show ?thesis
  proof
    assume "processExample e sub (rs, map statusCode rs) = (rs, map statusCode rs)"
    then show ?thesis by (rule disjI1)
  next
    assume "\<exists>rc code. parseStatus rc = Some code \<and> code \<noteq> 0 \<and> code \<notin> set (map statusCode rs) \<and>
        processExample e sub (rs, map statusCode rs) =
          (rs @ [\<lparr>statusCode = code, res_body = parseResponseBody e rc,
                  res_headers = parseResponseHeaders e rc\<rparr>],
           map statusCode rs @ [code])"
    then obtain rc code where rc: "parseStatus rc = Some code" "code \<noteq> 0" "code \<notin> set (map statusCode rs)"
      and pe: "processExample e sub (rs, map statusCode rs) =
          (rs @ [\<lparr>statusCode = code, res_body = parseResponseBody e rc,
                  res_headers = parseResponseHeaders e rc\<rparr>],
           map statusCode rs @ [code])" by blast
    define r where "r = \<lparr>statusCode = code, res_body = parseResponseBody e rc,
                  res_headers = parseResponseHeaders e rc\<rparr>"
    have f: "statusCode r = code" "res_body r = parseResponseBody e rc"
      "res_headers r = parseResponseHeaders e rc" by (simp_all add: r_def)
    have b: "builtBy e r" unfolding builtBy_def using rc(1) f by blast
    have "processExample e sub (rs, map statusCode rs) = (rs @ [r], map statusCode (rs @ [r]))"
      using pe f(1) by (simp add: r_def)
    then show ?thesis using b rc(2,3) f(1) by blast
  qed
qed

lemma exampleLoop_inv:
  "distinct (map statusCode rs) \<Longrightarrow>
   \<exists>rs'. exampleLoop e rest (rs, map statusCode rs) = Some (rs', map statusCode rs')
      \<and> prefix rs rs' \<and> distinct (map statusCode rs')
      \<and> (\<forall>r \<in> set rs'. r \<in> set rs \<or> builtBy e r)"
proof (induction rest arbitrary: rs rule: measure_induct_rule[where f = length])
  case (less rest)
  show ?case
  proof (cases "searchIdx exampleAt rest")
    case None
    then have "exampleLoop e rest (rs, map statusCode rs) = Some (rs, map statusCode rs)"
      by (subst exampleLoop.simps) simp
    moreover have "prefix rs rs" by simp
    ultimately show ?thesis using less.prems by blast
  next
    case (Some found)
    obtain m l where f: "found = (m, l)" by (cases found)
    from searchIdx_sound[of exampleAt rest m l] Some f
    have "m \<le> length rest" "exampleAt (drop m rest) = Some l" by auto
    then have l: "0 < l" "m + l \<le> length rest" using exampleAt_length[of "drop m rest" l] by auto
    define rest' where "rest' = drop (m + l) rest"
    have short: "length rest' < length rest" using l by (simp add: rest'_def)
    have ne: "l \<noteq> 0" using l by simp
    have step: "exampleLoop e rest (rs, map statusCode rs)
                 = exampleLoop e rest' (processExample e (drop m rest) (rs, map statusCode rs))"
      unfolding rest'_def by (subst exampleLoop.simps) (simp add: Some f ne)
    from processExample_step[of e "drop m rest" rs]
    show ?thesis
    proof
      assume same: "processExample e (drop m rest) (rs, map statusCode rs) = (rs, map statusCode rs)"
      from less.IH[OF short less.prems] show ?thesis unfolding step same .
    next
      assume "\<exists>r. builtBy e r \<and> statusCode r \<noteq> 0 \<and> statusCode r \<notin> set (map statusCode rs) \<and>
        processExample e (drop m rest) (rs, map statusCode rs) = (rs @ [r], map statusCode (rs @ [r]))"
      then obtain r where b: "builtBy e r" and new: "statusCode r \<notin> set (map statusCode rs)"
        and pe: "processExample e (drop m rest) (rs, map statusCode rs) = (rs @ [r], map statusCode (rs @ [r]))"
        by blast
      have d: "distinct (map statusCode (rs @ [r]))" using less.prems new by simp
      from less.IH[OF short d] obtain rs' where
        r1: "exampleLoop e rest' (rs @ [r], map statusCode (rs @ [r])) = Some (rs', map statusCode rs')"
        and r2: "prefix (rs @ [r]) rs'" and r3: "distinct (map statusCode rs')"
        and r4: "\<forall>x \<in> set rs'. x \<in> set (rs @ [r]) \<or> builtBy e x" by blast
      have p: "prefix rs rs'" using r2 by (auto simp: prefix_def)
      have q: "\<forall>x \<in> set rs'. x \<in> set rs \<or> builtBy e x" using r4 b by auto
      have "exampleLoop e rest (rs, map statusCode rs) = Some (rs', map statusCode rs')"
        unfolding step pe by (rule r1)
      then show ?thesis using p r3 q by blast
    qed
  qed
qed

lemma parseBruFile_shape:
  "\<exists>rs clean. exampleLoop e content ([], []) = Some (rs, map statusCode rs)
      \<and> distinct (map statusCode rs) \<and> (\<forall>r \<in> set rs. builtBy e r)
      \<and> stripBlocks content ''example'' = Some clean
      \<and> parseBruFile e filePath content =
          Some (Value
                 \<lparr>bru_path = filePath,
                  bru_name = parseName e filePath content,
                  bru_method = parseMethod content,
                  bru_url = parseUrl content,
                  bru_body = parseBody e clean,
                  bru_headers = parseKvBlock e clean ''headers'',
                  bru_query = parseKvBlock e clean ''params:query'',
                  bru_params = parseKvBlock e clean ''params:path'',
                  bru_responses = (if 0 < length rs then Some rs else None)\<rparr>)"
proof -
  have "distinct (map statusCode ([] :: ('a, 'b) Response list))" by simp
  from exampleLoop_inv[OF this, of e content] obtain rs where
    l: "exampleLoop e content ([], []) = Some (rs, map statusCode rs)"
    and d: "distinct (map statusCode rs)" and b: "\<forall>r \<in> set rs. builtBy e r" by auto
  from stripLoop_total[of "''example''" content] obtain clean where
    c: "stripBlocks content ''example'' = Some clean" by (auto simp: stripBlocks_def)
  have "parseBruFile e filePath content =
          Some (Value
                 \<lparr>bru_path = filePath,
                  bru_name = parseName e filePath content,
                  bru_method = parseMethod content,
                  bru_url = parseUrl content,
                  bru_body = parseBody e clean,
                  bru_headers = parseKvBlock e clean ''headers'',
                  bru_query = parseKvBlock e clean ''params:query'',
                  bru_params = parseKvBlock e clean ''params:path'',
                  bru_responses = (if 0 < length rs then Some rs else None)\<rparr>)"
    unfolding parseBruFile_def l c by simp
  then show ?thesis using l d b c by blast
qed

text \<open>
  Claim C9. For every environment, path and text the document parser returns, and what it
  returns is a record, never \<open>null\<close>: both loops end, and the parser has no branch that
  throws, since absent blocks, unbalanced braces, a missing status code and a rejected literal
  are all absent values.
\<close>

theorem parseBruFile_returns_record:
  "\<exists>d. parseBruFile e filePath content = Some (Value d)"
  using parseBruFile_shape[of e content filePath] by blast


lemma present_Some: "present x = Some s \<longleftrightarrow> (x = Some s \<and> s \<noteq> [])"
  by (auto simp: present_def split: option.splits)

text \<open>
  Claim C8. When the relaxed-JSON parser rejects the literal of the \<open>body:json\<close> block, the
  document body is absent; when it rejects the literal of a response body, that response's
  body is absent. The document parser still returns its record, and every response it lists
  has the body read from its response block in this way.
\<close>

theorem failed_literal_leaves_body_absent:
  "(\<forall>lit. extractBlockContent clean ''body:json'' = Some lit \<longrightarrow> json5 e lit = None \<longrightarrow>
        parseBody e clean = None)
   \<and> (\<forall>bodyBlock lit. extractBlockContent rc ''body'' = Some bodyBlock \<longrightarrow>
        contentLiteral bodyBlock = Some lit \<longrightarrow> json5 e (trim lit) = None \<longrightarrow>
        parseResponseBody e rc = None)
   \<and> (\<exists>d. parseBruFile e filePath content = Some (Value d)
        \<and> (\<forall>cleanContent lit. stripBlocks content ''example'' = Some cleanContent \<longrightarrow>
              extractBlockContent cleanContent ''body:json'' = Some lit \<longrightarrow> json5 e lit = None \<longrightarrow>
              bru_body d = None)
        \<and> (\<forall>rs. bru_responses d = Some rs \<longrightarrow>
              (\<forall>r \<in> set rs. \<exists>rc'. parseStatus rc' = Some (statusCode r) \<and>
                   res_body r = parseResponseBody e rc')))"
proof (intro conjI allI impI)
  fix lit assume "extractBlockContent clean ''body:json'' = Some lit" "json5 e lit = None"
  then show "parseBody e clean = None"
    by (simp add: parseBody_def present_def)
next
  fix bodyBlock lit
  assume "extractBlockContent rc ''body'' = Some bodyBlock" "contentLiteral bodyBlock = Some lit"
    "json5 e (trim lit) = None"
  then show "parseResponseBody e rc = None"
    by (simp add: parseResponseBody_def present_def)
next
  from parseBruFile_shape[of e content filePath] obtain rs0 clean0 where
    b: "\<forall>r \<in> set rs0. builtBy e r" and c: "stripBlocks content ''example'' = Some clean0"
    and s: "parseBruFile e filePath content =
          Some (Value
                 \<lparr>bru_path = filePath,
                  bru_name = parseName e filePath content,
                  bru_method = parseMethod content,
                  bru_url = parseUrl content,
                  bru_body = parseBody e clean0,
                  bru_headers = parseKvBlock e clean0 ''headers'',
                  bru_query = parseKvBlock e clean0 ''params:query'',
                  bru_params = parseKvBlock e clean0 ''params:path'',
                  bru_responses = (if 0 < length rs0 then Some rs0 else None)\<rparr>)" by blast
  define d where "d = \<lparr>bru_path = filePath,
                  bru_name = parseName e filePath content,
                  bru_method = parseMethod content,
                  bru_url = parseUrl content,
                  bru_body = parseBody e clean0,
                  bru_headers = parseKvBlock e clean0 ''headers'',
                  bru_query = parseKvBlock e clean0 ''params:query'',
                  bru_params = parseKvBlock e clean0 ''params:path'',
                  bru_responses = (if 0 < length rs0 then Some rs0 else None)\<rparr>"
  have 1: "parseBruFile e filePath content = Some (Value d)" using s by (simp add: d_def)
  have 2: "\<forall>cleanContent lit. stripBlocks content ''example'' = Some cleanContent \<longrightarrow>
              extractBlockContent cleanContent ''body:json'' = Some lit \<longrightarrow> json5 e lit = None \<longrightarrow>
              bru_body d = None"
    using c by (auto simp: d_def parseBody_def present_def)
  have 3: "\<forall>rs. bru_responses d = Some rs \<longrightarrow>
              (\<forall>r \<in> set rs. \<exists>rc'. parseStatus rc' = Some (statusCode r) \<and>
                   res_body r = parseResponseBody e rc')"
  proof (intro allI impI ballI)
    fix rs r assume "bru_responses d = Some rs" "r \<in> set rs"
    then have "r \<in> set rs0" by (auto simp: d_def split: if_splits)
    then have "builtBy e r" using b by blast
    then show "\<exists>rc'. parseStatus rc' = Some (statusCode r) \<and> res_body r = parseResponseBody e rc'"
      unfolding builtBy_def by blast
  qed
  from 1 2 3 show "\<exists>d. parseBruFile e filePath content = Some (Value d)
        \<and> (\<forall>cleanContent lit. stripBlocks content ''example'' = Some cleanContent \<longrightarrow>
              extractBlockContent cleanContent ''body:json'' = Some lit \<longrightarrow> json5 e lit = None \<longrightarrow>
              bru_body d = None)
        \<and> (\<forall>rs. bru_responses d = Some rs \<longrightarrow>
              (\<forall>r \<in> set rs. \<exists>rc'. parseStatus rc' = Some (statusCode r) \<and>
                   res_body r = parseResponseBody e rc'))" by blast
qed


theorem failed_literal_leaves_body_absent_witness:
  "extractBlockContent ''body:json { bad } '' ''body:json'' = Some '' bad ''
   \<and> json5 sampleEnv '' bad '' = None
   \<and> parseBody sampleEnv ''body:json { bad } '' = None
   \<and> parseBruFile sampleEnv ''f'' badLiterals =
       Some (Value \<lparr>bru_path = ''f'', bru_name = ''f'', bru_method = ''unknown'', bru_url = [],
                  bru_body = None, bru_headers = None, bru_query = None, bru_params = None,
                  bru_responses = Some [\<lparr>statusCode = 500, res_body = None, res_headers = None\<rparr>]\<rparr>)"
proof -
  have a: "extractBlockContent ''body:json { bad } '' ''body:json'' = Some '' bad ''" by code_simp
  have b: "json5 sampleEnv '' bad '' = None" by code_simp
  have c: "parseBody sampleEnv ''body:json { bad } '' = None"
    using failed_literal_leaves_body_absent[of "''body:json { bad } ''" sampleEnv "[]" "''f''" badLiterals,
        THEN conjunct1, THEN spec, THEN mp, THEN mp, OF a b] .
  have d: "parseBruFile sampleEnv ''f'' badLiterals =
       Some (Value \<lparr>bru_path = ''f'', bru_name = ''f'', bru_method = ''unknown'', bru_url = [],
                  bru_body = None, bru_headers = None, bru_query = None, bru_params = None,
                  bru_responses = Some [\<lparr>statusCode = 500, res_body = None, res_headers = None\<rparr>]\<rparr>)"
    by code_simp
  from a b c d show ?thesis by (intro conjI)
qed

section \<open>Headers nested in example blocks\<close>

lemma stripStep_cut:
  assumes c: "content = pre @ hdr @ ''{'' @ inner @ ''}'' @ post"
    and fh: "firstHeader ''example'' content (length pre)"
    and nb: "CHR ''{'' \<notin> set hdr"
    and d: "depth inner = 0" and so: "staysOpen inner"
  shows "stripStep content ''example'' = Some (pre @ post)"
proof -
  let ?m = "length pre"
  let ?ob = "length pre + length hdr"
  have f1: "findHeader ''example'' content = Some ?m" using fh by (simp add: findHeader_first)
  have at: "content ! ?ob = CHR ''{''" unfolding c by (simp add: nth_append)
  have before: "\<forall>k \<in> {?m..<?ob}. content ! k \<noteq> CHR ''{''"
  proof
    fix k assume k: "k \<in> {?m..<?ob}"
    then have "content ! k = hdr ! (k - ?m)" unfolding c by (auto simp: nth_append)
    moreover have "hdr ! (k - ?m) \<in> set hdr" using k by auto
    ultimately show "content ! k \<noteq> CHR ''{''" using nb by metis
  qed
  have len: "?ob < length content" unfolding c by simp
  have f2: "indexOfFrom (CHR ''{'') content ?m = Some ?ob"
    using at before len by (simp add: indexOfFrom_first)
  have dr: "drop (Suc ?ob) content = inner @ CHR ''}'' # post" unfolding c by simp
  have pr: "\<forall>p. prefix p inner \<longrightarrow> 0 < int 1 + depth p" using so by (auto simp: staysOpen_iff)
  define i where "i = Suc ?ob + length inner + 1"
  have sc: "scanBraces (drop (Suc ?ob) content) (Suc ?ob) 1 = (i, 0)"
    unfolding dr i_def using scan_close[of 1 inner post "Suc ?ob"] d pr by (simp del: One_nat_def)
  have s1: "substring content 0 ?m = pre" unfolding c by (simp add: substring_def Let_def)
  have s2: "drop i content = post" unfolding c i_def by simp
  show ?thesis by (simp add: stripStep_def f1 f2 sc s1 s2 del: One_nat_def)
qed

lemma parseBruFile_headers:
  "stripBlocks content ''example'' = Some clean \<Longrightarrow>
   \<exists>d. parseBruFile e p content = Some (Value d) \<and> bru_headers d = parseKvBlock e clean ''headers''"
  using parseBruFile_shape[of e content p] by auto

text \<open>
  Claim C4, as the code has it. When the leftmost \<open>example\<close> header of a document opens a
  block whose braces balance, the parser reads the document's headers from the text with
  that block cut out: they are the headers of the document \<open>pre @ post\<close>, whatever the block
  contains, so a \<open>headers\<close> block nested in it is never read as the document's. If what
  remains has no further \<open>example\<close> header and no \<open>headers\<close> header, the headers field is
  absent.
\<close>

theorem nested_headers_not_top_level:
  assumes c: "content = pre @ hdr @ ''{'' @ inner @ ''}'' @ post"
    and fh: "firstHeader ''example'' content (length pre)"
    and nb: "CHR ''{'' \<notin> set hdr"
    and d: "depth inner = 0" and so: "staysOpen inner"
  shows "\<exists>d d'. parseBruFile e p content = Some (Value d)
           \<and> parseBruFile e p (pre @ post) = Some (Value d')
           \<and> bru_headers d = bru_headers d'
           \<and> (findHeader ''example'' (pre @ post) = None \<longrightarrow>
                findHeader ''headers'' (pre @ post) = None \<longrightarrow> bru_headers d = None)"
proof -
  have cut: "stripStep content ''example'' = Some (pre @ post)"
    using stripStep_cut[OF c fh nb d so] .
  from stripLoop_total[of "''example''" "pre @ post"] obtain clean where
    cl: "stripBlocks (pre @ post) ''example'' = Some clean" by (auto simp: stripBlocks_def)
  have cl': "stripBlocks content ''example'' = Some clean"
    using cl cut unfolding stripBlocks_def by (subst stripLoop.simps) simp
  from parseBruFile_headers[OF cl', of e p] obtain d1 where
    d1: "parseBruFile e p content = Some (Value d1)" "bru_headers d1 = parseKvBlock e clean ''headers''"
    by blast
  from parseBruFile_headers[OF cl, of e p] obtain d2 where
    d2: "parseBruFile e p (pre @ post) = Some (Value d2)" "bru_headers d2 = parseKvBlock e clean ''headers''"
    by blast
  have last: "findHeader ''example'' (pre @ post) = None \<longrightarrow>
                findHeader ''headers'' (pre @ post) = None \<longrightarrow> bru_headers d1 = None"
  proof (intro impI)
    assume n1: "findHeader ''example'' (pre @ post) = None"
      and n2: "findHeader ''headers'' (pre @ post) = None"
    have "stripStep (pre @ post) ''example'' = None" using n1 by (simp add: stripStep_def)
    then have "stripBlocks (pre @ post) ''example'' = Some (pre @ post)"
      unfolding stripBlocks_def by (subst stripLoop.simps) simp
    then have "clean = pre @ post" using cl by simp
    moreover have "extractBlockContent (pre @ post) ''headers'' = None"
      using n2 by (simp add: extractBlockContent_def)
    ultimately show "bru_headers d1 = None" using d1(2) by (simp add: parseKvBlock_def present_def)
  qed
  show ?thesis using d1 d2 last by auto
qed

theorem nested_headers_not_top_level_witness:
  "oneExample = (''get {'' @ [CHR 0x0A] @ ''  url: /x'' @ [CHR 0x0A] @ ''}'' @ [CHR 0x0A]) @ ''example '' @ ''{''
       @ '' response: { headers: { a: b } } '' @ ''}'' @ [CHR 0x0A]
   \<and> firstHeader ''example'' oneExample (length (''get {'' @ [CHR 0x0A] @ ''  url: /x'' @ [CHR 0x0A] @ ''}'' @ [CHR 0x0A]))
   \<and> CHR ''{'' \<notin> set ''example ''
   \<and> depth '' response: { headers: { a: b } } '' = 0
   \<and> staysOpen '' response: { headers: { a: b } } ''
   \<and> nestedHeaders oneExample
   \<and> (\<exists>d. parseBruFile sampleEnv ''f'' oneExample = Some (Value d) \<and> bru_headers d = None)"
proof -
  let ?pre = "''get {'' @ [CHR 0x0A] @ ''  url: /x'' @ [CHR 0x0A] @ ''}'' @ [CHR 0x0A]"
  let ?inner = "'' response: { headers: { a: b } } ''"
  let ?post = "[CHR 0x0A]"
  have c: "oneExample = ?pre @ ''example '' @ ''{'' @ ?inner @ ''}'' @ ?post"
    by (simp add: oneExample_def)
  have "findHeader ''example'' oneExample = Some (length ?pre)" by code_simp
  then have fh: "firstHeader ''example'' oneExample (length ?pre)" by (simp only: findHeader_first)
  have nb: "CHR ''{'' \<notin> set ''example ''" by simp
  have d: "depth ?inner = 0" by code_simp
  have so: "staysOpen ?inner" by code_simp
  have nh: "nestedHeaders oneExample" by code_simp
  have n1: "findHeader ''example'' (?pre @ ?post) = None" by code_simp
  have n2: "findHeader ''headers'' (?pre @ ?post) = None" by code_simp
  from nested_headers_not_top_level[OF c fh nb d so, of sampleEnv "''f''"] n1 n2
  have "\<exists>d. parseBruFile sampleEnv ''f'' oneExample = Some (Value d) \<and> bru_headers d = None"
    by blast
  with c fh nb d so nh show ?thesis by (intro conjI)
qed

text \<open>
  Claim C4 as stated fails when an \<open>example\<close> header whose braces never balance comes
  first: the loop that removes example blocks stops there, the balanced example block after
  it stays in the text, and its nested \<open>headers\<close> block becomes the document's headers
  although no \<open>headers\<close> header stands outside the example block.
\<close>

theorem nested_headers_leak_counterexample:
  "nestedHeaders strayExample \<and> \<not> independentHeaders strayExample
   \<and> parseBruFile sampleEnv ''f'' strayExample =
       Some (Value \<lparr>bru_path = ''f'', bru_name = ''f'', bru_method = ''unknown'', bru_url = [],
                  bru_body = None, bru_headers = Some [(''a'', KStr ''b'')], bru_query = None,
                  bru_params = None, bru_responses = None\<rparr>)"
proof -
  have a: "nestedHeaders strayExample" by code_simp
  have b: "\<not> independentHeaders strayExample" by code_simp
  have c: "parseBruFile sampleEnv ''f'' strayExample =
       Some (Value \<lparr>bru_path = ''f'', bru_name = ''f'', bru_method = ''unknown'', bru_url = [],
                  bru_body = None, bru_headers = Some [(''a'', KStr ''b'')], bru_query = None,
                  bru_params = None, bru_responses = None\<rparr>)" by code_simp
  from a b c show ?thesis by (intro conjI)
qed

section \<open>Restructuring keeps references resolved\<close>

subsection \<open>Association lists\<close>




lemma map_of_in: "map_of d n = Some v \<Longrightarrow> (n, v) \<in> set d"
  by (rule map_of_SomeD)

subsection \<open>References of an object, member by member\<close>











lemma isObj_iff: "isObj v \<longleftrightarrow> (\<exists>m. v = JObj m)"
  by (cases v) auto




























section \<open>Array items become named definitions\<close>






















section \<open>The declarations of the posts sample\<close>
























end
